theory Spec2Isabelle
  imports Complex_Main "HOL-Library.Sublist"
begin

section \<open>Python strings\<close>

text \<open>
  A Python \<open>str\<close> is modelled as a \<open>string\<close> whose characters are the code points
  0 to 255 (Latin-1): the OCR collaborator's output is read one code point per \<open>char\<close>.
  On this range \<open>str.lower\<close> maps \<open>A\<close>..\<open>Z\<close> and the accented capitals
  U+00C0..U+00DE (the multiplication sign U+00D7 apart) to the letter 32 places higher,
  the regular expression class \<open>\s\<close> and the blanks skipped by \<open>int()\<close> are the code
  points 9..13, 28..32, 133 and 160, and \<open>\d\<close> is \<open>0\<close>..\<open>9\<close>.
\<close>

definition lower_char :: "char \<Rightarrow> char" where
  "lower_char c =
     (let n = (of_char c :: nat)
      in if (65 \<le> n \<and> n \<le> 90) \<or> (192 \<le> n \<and> n \<le> 222 \<and> n \<noteq> 215)
         then char_of (n + 32) else c)"

definition py_lower :: "string \<Rightarrow> string" where
  "py_lower s = map lower_char s"

definition is_space :: "char \<Rightarrow> bool" where
  "is_space c \<longleftrightarrow>
     c \<in> set [CHR 0x09, CHR 0x0A, CHR 0x0B, CHR 0x0C, CHR 0x0D,
               CHR 0x1C, CHR 0x1D, CHR 0x1E, CHR 0x1F, CHR 0x20, CHR 0x85, CHR 0xA0]"

definition is_digit :: "char \<Rightarrow> bool" where
  "is_digit c \<longleftrightarrow> c \<in> set ''0123456789''"

definition digit_value :: "char \<Rightarrow> nat" where
  "digit_value c = of_char c - 48"

definition digits_value :: "string \<Rightarrow> nat" where
  "digits_value ds = foldl (\<lambda>a c. 10 * a + digit_value c) 0 ds"

text \<open>\<open>needle in hay\<close>: the needle occurs as a contiguous slice of the haystack.\<close>

fun py_in :: "string \<Rightarrow> string \<Rightarrow> bool" where
  "py_in needle [] = (needle = [])"
| "py_in needle (c # cs) = (prefix needle (c # cs) \<or> py_in needle cs)"

text \<open>\<open>s.split(sep)\<close> for a one-character separator: never the empty list.\<close>

fun py_split :: "char \<Rightarrow> string \<Rightarrow> string list" where
  "py_split sep [] = [[]]"
| "py_split sep (c # cs) =
     (if c = sep then [] # py_split sep cs
      else (case py_split sep cs of
              [] \<Rightarrow> [[c]]
            | x # xs \<Rightarrow> (c # x) # xs))"

text \<open>
  \<open>s.replace(old, new)\<close> for a two-character \<open>old = [a, b]\<close>: one pass from the left,
  the scan resuming after each replaced occurrence.
\<close>

fun py_replace2 :: "char \<Rightarrow> char \<Rightarrow> string \<Rightarrow> string \<Rightarrow> string" where
  "py_replace2 a b new (x # y # zs) =
     (if x = a \<and> y = b then new @ py_replace2 a b new zs
      else x # py_replace2 a b new (y # zs))"
| "py_replace2 a b new zs = zs"

datatype py_error = IndexError | ValueError

text \<open>\<open>xs[1]\<close>: the second element, IndexError when there is none.\<close>

definition subscript1 :: "'a list \<Rightarrow> py_error + 'a" where
  "subscript1 xs = (case xs of _ # y # _ \<Rightarrow> Inr y | _ \<Rightarrow> Inl IndexError)"

text \<open>
  \<open>int(s)\<close> on a \<open>str\<close>, base 10: blanks around, an optional sign, then digits in
  which single underscores may stand between two digits; anything else is a ValueError.
\<close>

fun double_underscore :: "string \<Rightarrow> bool" where
  "double_underscore (x # y # zs) =
     ((x = CHR ''_'' \<and> y = CHR ''_'') \<or> double_underscore (y # zs))"
| "double_underscore zs = False"

definition py_int :: "string \<Rightarrow> py_error + int" where
  "py_int s =
     (let s1 = dropWhile is_space s;
          negative = (case s1 of [] \<Rightarrow> False | c # _ \<Rightarrow> c = CHR ''-'');
          s2 = (case s1 of [] \<Rightarrow> [] | c # r \<Rightarrow> if c = CHR ''-'' \<or> c = CHR ''+'' then r else s1);
          body = takeWhile (\<lambda>c. is_digit c \<or> c = CHR ''_'') s2;
          trailing = dropWhile (\<lambda>c. is_digit c \<or> c = CHR ''_'') s2
      in if body = [] \<or> hd body = CHR ''_'' \<or> last body = CHR ''_'' \<or> double_underscore body
            \<or> \<not> list_all is_space trailing
         then Inl ValueError
         else Inr ((if negative then - 1 else 1) * int (digits_value (filter is_digit body))))"

section \<open>Keyword mode: the stat parser of \<open>modules/ocr.py\<close>\<close>

text \<open>
  The two patterns are \<open>LABEL:?\s*\+?(\d+)%\<close> under \<open>re.IGNORECASE\<close>. Every
  quantifier of the pattern is followed by something that cannot match what the
  quantifier matches, so the greedy choice is the only one: \<open>match_at\<close> follows it and
  returns the digits of group 1 and the length of the whole match.
\<close>

fun match_literal :: "string \<Rightarrow> string \<Rightarrow> string option" where
  "match_literal [] s = Some s"
| "match_literal (p # ps) [] = None"
| "match_literal (p # ps) (c # cs) =
     (if lower_char c = lower_char p then match_literal ps cs else None)"

definition optional_char :: "char \<Rightarrow> string \<Rightarrow> string" where
  "optional_char c s = (case s of [] \<Rightarrow> [] | x # xs \<Rightarrow> if x = c then xs else s)"

definition match_at :: "string \<Rightarrow> string \<Rightarrow> (string \<times> nat) option" where
  "match_at label s =
     (case match_literal label s of
        None \<Rightarrow> None
      | Some s1 \<Rightarrow>
          (let s2 = optional_char CHR '':'' s1;
               s3 = dropWhile is_space s2;
               s4 = optional_char CHR ''+'' s3;
               ds = takeWhile is_digit s4;
               s5 = dropWhile is_digit s4
           in if ds \<noteq> [] \<and> (case s5 of [] \<Rightarrow> False | c # _ \<Rightarrow> c = CHR ''%'')
              then Some (ds, length s - length s5 + 1) else None))"

text \<open>
  \<open>re.finditer\<close>: the leftmost match first, the search resuming where the match ended.
  The first argument counts the characters still covered by the previous match.
\<close>

fun finditer :: "string \<Rightarrow> nat \<Rightarrow> string \<Rightarrow> string list" where
  "finditer label k [] = []"
| "finditer label (Suc k) (c # cs) = finditer label k cs"
| "finditer label 0 (c # cs) =
     (case match_at label (c # cs) of
        None \<Rightarrow> finditer label 0 cs
      | Some (ds, n) \<Rightarrow> ds # finditer label (n - 1) cs)"

text \<open>The loop \<open>for match in matches: try: total += int(match.group(1)) except ...: pass\<close>.\<close>

definition add_match :: "int \<Rightarrow> string \<Rightarrow> int" where
  "add_match running group1 = (case py_int group1 of Inl _ \<Rightarrow> running | Inr v \<Rightarrow> running + v)"

definition extract_item_drop_rate :: "string \<Rightarrow> int" where
  "extract_item_drop_rate text = foldl add_match 0 (finditer ''Item Drop Rate'' 0 text)"

definition extract_mesos_obtained :: "string \<Rightarrow> int" where
  "extract_mesos_obtained text = foldl add_match 0 (finditer ''Mesos Obtained'' 0 text)"

section \<open>Comparative mode: the stat parser and the scorer of \<open>test2.py\<close>\<close>

record stats =
  main_stat :: int
  secondary_stat :: int
  weapon_attack :: int
  magic_attack :: int
  all_stat_percent :: int

definition initial_stats :: stats where
  "initial_stats =
     \<lparr>main_stat = 0, secondary_stat = 0, weapon_attack = 0, magic_attack = 0,
      all_stat_percent = 0\<rparr>"

text \<open>\<open>line.replace(" +", "+").replace("+ ", "+")\<close>\<close>

definition normalize_line :: "string \<Rightarrow> string" where
  "normalize_line line =
     py_replace2 CHR ''+'' CHR '' '' ''+'' (py_replace2 CHR '' '' CHR ''+'' ''+'' line)"

text \<open>\<open>int(line.split("+")[1])\<close>\<close>

definition plus_value :: "string \<Rightarrow> py_error + int" where
  "plus_value line =
     (case subscript1 (py_split CHR ''+'' line) of
        Inl e \<Rightarrow> Inl e
      | Inr v \<Rightarrow> py_int v)"

text \<open>\<open>value = line.split("+")[1]; int(value.replace("%", ""))\<close>\<close>

definition percent_value :: "string \<Rightarrow> py_error + int" where
  "percent_value line =
     (case subscript1 (py_split CHR ''+'' line) of
        Inl e \<Rightarrow> Inl e
      | Inr v \<Rightarrow> py_int (filter (\<lambda>c. c \<noteq> CHR ''%'') v))"

text \<open>
  One round of the loop over the lines. \<open>MAIN_STAT\<close> and \<open>SECONDARY_STAT\<close> are the
  module's two configuration globals; each \<open>try ... except (IndexError, ValueError): pass\<close>
  leaves the field as it was.
\<close>

definition process_line :: "string \<Rightarrow> string \<Rightarrow> stats \<Rightarrow> string \<Rightarrow> stats" where
  "process_line MAIN_STAT SECONDARY_STAT st raw =
     (let line = normalize_line raw;
          st1 = (if py_in MAIN_STAT line
                 then (case plus_value line of Inl _ \<Rightarrow> st | Inr v \<Rightarrow> st\<lparr>main_stat := v\<rparr>)
                 else st);
          st2 = (if py_in SECONDARY_STAT line
                 then (case plus_value line of Inl _ \<Rightarrow> st1 | Inr v \<Rightarrow> st1\<lparr>secondary_stat := v\<rparr>)
                 else st1);
          st3 = (if py_in ''WEAPON ATTACK'' line \<or> py_in ''WEAPON ATT'' line
                 then (case plus_value line of Inl _ \<Rightarrow> st2 | Inr v \<Rightarrow> st2\<lparr>weapon_attack := v\<rparr>)
                 else st2);
          st4 = (if py_in ''All Stats'' line
                 then (case percent_value line of Inl _ \<Rightarrow> st3
                       | Inr v \<Rightarrow> st3\<lparr>all_stat_percent := v\<rparr>)
                 else st3)
      in st4)"

text \<open>
  \<open>extract_stats\<close> from the OCR text on: the image, its debug copy and the call of the
  text extractor are the environment's.
\<close>

definition extract_stats :: "string \<Rightarrow> string \<Rightarrow> string \<Rightarrow> stats" where
  "extract_stats MAIN_STAT SECONDARY_STAT text =
     foldl (process_line MAIN_STAT SECONDARY_STAT) initial_stats (py_split CHR 0x0A text)"

text \<open>
  The flame score. Python adds the three integer terms and then the quotient
  \<open>secondary_stat / 8\<close>, a float; the model keeps the exact rational the float stands
  for (a multiple of one eighth).
\<close>

definition calculate_flame_score :: "stats \<Rightarrow> rat" where
  "calculate_flame_score st =
     (let main_stat_value = main_stat st;
          weapon_att_value = weapon_attack st * 4;
          all_stat_value = all_stat_percent st * 8;
          secondary_stat_value = of_int (secondary_stat st) / 8
      in of_int (main_stat_value + weapon_att_value + all_stat_value) + secondary_stat_value)"

section \<open>The environment of the decision loops\<close>

text \<open>
  The loops call three collaborators: the cancellation poll \<open>check_stop_key\<close>, the
  sampling chain (window lookup, capture, OCR) and the retry action. A run is scripted by
  the answers they give, call by call; the world counts the calls made so far and keeps
  the log of what happened, the most recent event first. A sampling that raises is
  \<open>None\<close>; a retry action that raises is \<open>None\<close>, one that returns is \<open>Some\<close> of the
  value returned. The loops' own \<open>time.sleep\<close> calls are logged with their duration in
  seconds; what happens inside a collaborator is not.
\<close>

datatype event = Poll bool | Sample bool | Retry | Sleep rat

record env =
  stop_key :: "nat \<Rightarrow> bool"
  ocr :: "nat \<Rightarrow> string option"
  retry :: "nat \<Rightarrow> bool option"

record world =
  polls :: nat
  samples :: nat
  retries :: nat
  log :: "event list"

datatype outcome = Succeeded | Stuck | Cancelled | Crashed

definition check_stop_key :: "env \<Rightarrow> 'a world_scheme \<Rightarrow> bool \<times> 'a world_scheme" where
  "check_stop_key e w =
     (let pressed = stop_key e (polls w)
      in (pressed, w\<lparr>polls := polls w + 1, log := Poll pressed # log w\<rparr>))"

definition sleep :: "rat \<Rightarrow> 'a world_scheme \<Rightarrow> 'a world_scheme" where
  "sleep seconds w = w\<lparr>log := Sleep seconds # log w\<rparr>"

definition sample_text :: "env \<Rightarrow> 'a world_scheme \<Rightarrow> string option \<times> 'a world_scheme" where
  "sample_text e w =
     (let answer = ocr e (samples w)
      in (answer, w\<lparr>samples := samples w + 1, log := Sample (answer \<noteq> None) # log w\<rparr>))"

definition retry_action :: "env \<Rightarrow> 'a world_scheme \<Rightarrow> bool option \<times> 'a world_scheme" where
  "retry_action e w =
     (retry e (retries w), w\<lparr>retries := retries w + 1, log := Retry # log w\<rparr>)"

text \<open>
  The inter-attempt delay of both scripts:
  \<open>for _ in range(split_delay): if check_stop_key(): return; time.sleep(split_time)\<close>.
  The result says whether the stop key was seen.
\<close>

fun delay_loop :: "env \<Rightarrow> rat \<Rightarrow> nat \<Rightarrow> 'a world_scheme \<Rightarrow> bool \<times> 'a world_scheme" where
  "delay_loop e split_time 0 w = (False, w)"
| "delay_loop e split_time (Suc k) w =
     (case check_stop_key e w of
        (True, w1) \<Rightarrow> (True, w1)
      | (False, w1) \<Rightarrow> delay_loop e split_time k (sleep split_time w1))"

section \<open>Keyword policy: \<open>dropRate_MesosObt.py\<close>\<close>

record scan_result =
  item_drop_rate :: int
  mesos_obtained :: int
  has_item_keyword :: bool
  has_mesos_keyword :: bool
  raw_text :: string

text \<open>What \<open>scan_for_stats\<close> makes of the OCR text.\<close>

definition stats_of_text :: "string \<Rightarrow> scan_result" where
  "stats_of_text txt =
     (let text_lower = py_lower txt
      in \<lparr>item_drop_rate = extract_item_drop_rate txt,
          mesos_obtained = extract_mesos_obtained txt,
          has_item_keyword = py_in ''item drop'' text_lower,
          has_mesos_keyword = py_in ''mesos'' text_lower,
          raw_text = txt\<rparr>)"

record kworld = world +
  text_history :: "string list"

text \<open>
  \<open>scan_for_stats\<close>: everything from the window lookup to the log entry stands in one
  \<open>try\<close>; \<open>except Exception\<close> prints the error and returns \<open>None\<close>.
\<close>

definition scan_for_stats :: "env \<Rightarrow> kworld \<Rightarrow> scan_result option \<times> kworld" where
  "scan_for_stats e w =
     (case sample_text e w of
        (None, w1) \<Rightarrow> (None, w1)
      | (Some txt, w1) \<Rightarrow> (Some (stats_of_text txt), w1))"

text \<open>\<open>text_history.append(current_text); if len(text_history) > 3: text_history.pop(0)\<close>\<close>

definition remember :: "string list \<Rightarrow> string \<Rightarrow> string list" where
  "remember history current_text =
     (let appended = history @ [current_text]
      in if length appended > 3 then tl appended else appended)"

text \<open>\<open>len(text_history) == 3 and text_history[0] == text_history[1] == text_history[2]\<close>\<close>

definition text_unchanged :: "string list \<Rightarrow> bool" where
  "text_unchanged history \<longleftrightarrow>
     length history = 3 \<and> history ! 0 = history ! 1 \<and> history ! 1 = history ! 2"

definition prime_lines_found :: "scan_result \<Rightarrow> nat" where
  "prime_lines_found r =
     (if has_item_keyword r then 1 else 0) + (if has_mesos_keyword r then 1 else 0)"

definition desired_stats_found :: "bool \<Rightarrow> scan_result \<Rightarrow> bool" where
  "desired_stats_found max_mode r \<longleftrightarrow>
     (\<not> max_mode \<and> prime_lines_found r > 0) \<or> (max_mode \<and> prime_lines_found r \<ge> 2)"

definition reroll_delay :: rat where
  "reroll_delay = 1"

definition split_delay :: nat where
  "split_delay = 4"

text \<open>The retry action and the sliced delay that end a round of either loop.\<close>

definition reroll_and_wait ::
  "env \<Rightarrow> rat \<Rightarrow> nat \<Rightarrow> 'a world_scheme \<Rightarrow> outcome option \<times> 'a world_scheme" where
  "reroll_and_wait e delay parts w =
     (case retry_action e w of
        (None, w1) \<Rightarrow> (Some Crashed, w1)
      | (Some _, w1) \<Rightarrow>
          (case delay_loop e (delay / of_nat parts) parts w1 of
             (True, w2) \<Rightarrow> (Some Cancelled, w2)
           | (False, w2) \<Rightarrow> (None, w2)))"

text \<open>
  One round of \<open>while True\<close> in \<open>main\<close>. \<open>None\<close> is the way back to the loop head; an
  exception that reaches \<open>main\<close>'s handler ends the run as \<open>Crashed\<close>.
\<close>

definition keyword_iteration :: "env \<Rightarrow> bool \<Rightarrow> kworld \<Rightarrow> outcome option \<times> kworld" where
  "keyword_iteration e max_mode w =
     (case check_stop_key e w of
        (True, w1) \<Rightarrow> (Some Cancelled, w1)
      | (False, w1) \<Rightarrow>
          (case scan_for_stats e w1 of
             (None, w2) \<Rightarrow> reroll_and_wait e reroll_delay split_delay w2
           | (Some result, w2) \<Rightarrow>
               (let w3 = w2\<lparr>text_history := remember (text_history w2) (raw_text result)\<rparr>
                in if text_unchanged (text_history w3) then (Some Stuck, w3)
                   else if desired_stats_found max_mode result then (Some Succeeded, w3)
                   else reroll_and_wait e reroll_delay split_delay w3)))"

text \<open>The loop, cut after a number of rounds: \<open>None\<close> when it is still running then.\<close>

fun keyword_loop :: "env \<Rightarrow> bool \<Rightarrow> nat \<Rightarrow> kworld \<Rightarrow> outcome option \<times> kworld" where
  "keyword_loop e max_mode 0 w = (None, w)"
| "keyword_loop e max_mode (Suc n) w =
     (case keyword_iteration e max_mode w of
        (Some r, w1) \<Rightarrow> (Some r, w1)
      | (None, w1) \<Rightarrow> keyword_loop e max_mode n w1)"

definition keyword_start :: kworld where
  "keyword_start = \<lparr>polls = 0, samples = 0, retries = 0, log = [], text_history = []\<rparr>"

section \<open>Comparative policy: \<open>main\<close> of \<open>test2.py\<close>\<close>

definition REROLL_DELAY :: rat where
  "REROLL_DELAY = 1 / 10"

definition SPLIT_DELAY :: nat where
  "SPLIT_DELAY = 4"

text \<open>\<open>capture_stat_box\<close> followed by \<open>extract_stats\<close>; nothing here catches what they raise.\<close>

definition capture_and_extract ::
  "env \<Rightarrow> string \<Rightarrow> string \<Rightarrow> world \<Rightarrow> stats option \<times> world" where
  "capture_and_extract e MAIN_STAT SECONDARY_STAT w =
     (case sample_text e w of
        (None, w1) \<Rightarrow> (None, w1)
      | (Some txt, w1) \<Rightarrow> (Some (extract_stats MAIN_STAT SECONDARY_STAT txt), w1))"

definition comparative_iteration ::
  "env \<Rightarrow> string \<Rightarrow> string \<Rightarrow> world \<Rightarrow> outcome option \<times> world" where
  "comparative_iteration e MAIN_STAT SECONDARY_STAT w =
     (case check_stop_key e w of
        (True, w1) \<Rightarrow> (Some Cancelled, w1)
      | (False, w1) \<Rightarrow>
          (case capture_and_extract e MAIN_STAT SECONDARY_STAT w1 of
             (None, w2) \<Rightarrow> (Some Crashed, w2)
           | (Some before_stats, w2) \<Rightarrow>
               (case capture_and_extract e MAIN_STAT SECONDARY_STAT w2 of
                  (None, w3) \<Rightarrow> (Some Crashed, w3)
                | (Some after_stats, w3) \<Rightarrow>
                    (let before_score = calculate_flame_score before_stats;
                         after_score = calculate_flame_score after_stats
                     in case check_stop_key e w3 of
                          (True, w4) \<Rightarrow> (Some Cancelled, w4)
                        | (False, w4) \<Rightarrow>
                            if after_score < before_score
                            then reroll_and_wait e REROLL_DELAY SPLIT_DELAY w4
                            else (Some Succeeded, w4)))))"

fun comparative_loop ::
  "env \<Rightarrow> string \<Rightarrow> string \<Rightarrow> nat \<Rightarrow> world \<Rightarrow> outcome option \<times> world" where
  "comparative_loop e MAIN_STAT SECONDARY_STAT 0 w = (None, w)"
| "comparative_loop e MAIN_STAT SECONDARY_STAT (Suc n) w =
     (case comparative_iteration e MAIN_STAT SECONDARY_STAT w of
        (Some r, w1) \<Rightarrow> (Some r, w1)
      | (None, w1) \<Rightarrow> comparative_loop e MAIN_STAT SECONDARY_STAT n w1)"

definition comparative_start :: world where
  "comparative_start = \<lparr>polls = 0, samples = 0, retries = 0, log = []\<rparr>"

section \<open>Notions of the specification\<close>

text \<open>The raw texts of the first \<open>k\<close> samplings, in order; a failed sampling has none.\<close>

definition seen_texts :: "env \<Rightarrow> nat \<Rightarrow> string list" where
  "seen_texts e k = List.map_filter (ocr e) [0..<k]"

text \<open>The threshold of the keyword policy, and the prime-line count of a raw text.\<close>

definition threshold :: "bool \<Rightarrow> nat" where
  "threshold max_mode = (if max_mode then 2 else 1)"

definition prime_line_count :: "string \<Rightarrow> nat" where
  "prime_line_count txt = card {label \<in> {''item drop'', ''mesos''}. sublist label (py_lower txt)}"

text \<open>
  A log, read from its most recent event back: every sleep lasts one slice and the event
  before it is a poll that saw no stop request.
\<close>

fun sleeps_polled :: "rat \<Rightarrow> event list \<Rightarrow> bool" where
  "sleeps_polled slice [] = True"
| "sleeps_polled slice (Sleep d # es) = (d = slice \<and> take 1 es = [Poll False] \<and> sleeps_polled slice es)"
| "sleeps_polled slice (e # es) = sleeps_polled slice es"



text \<open>
  An occurrence of the keyword pattern for a label: the label in any letter case, an
  optional colon, any number of blanks, an optional plus sign, a non-empty run of decimal
  digits and a percent sign. \<open>occurrence_at label s i ds\<close>: such a word starts at
  position \<open>i\<close> of \<open>s\<close> and its digits are \<open>ds\<close>.
\<close>

definition pattern_match :: "string \<Rightarrow> string \<Rightarrow> string \<Rightarrow> bool" where
  "pattern_match label w ds \<longleftrightarrow>
     (\<exists>lab colon blanks plus.
        w = lab @ colon @ blanks @ plus @ ds @ ''%''
        \<and> py_lower lab = py_lower label
        \<and> (colon = [] \<or> colon = '':'')
        \<and> list_all is_space blanks
        \<and> (plus = [] \<or> plus = ''+'')
        \<and> ds \<noteq> [] \<and> list_all is_digit ds)"

definition occurrence_at :: "string \<Rightarrow> string \<Rightarrow> nat \<Rightarrow> string \<Rightarrow> bool" where
  "occurrence_at label s i ds \<longleftrightarrow> (\<exists>w rest. drop i s = w @ rest \<and> pattern_match label w ds)"

text \<open>What the matcher of the code finds at the head of a text, as an integer.\<close>

definition match_value :: "string \<Rightarrow> string \<Rightarrow> int" where
  "match_value label s =
     (case match_at label s of None \<Rightarrow> 0 | Some (ds, n) \<Rightarrow> int (digits_value ds))"

section \<open>What the collaborator calls leave unchanged\<close>

lemmas ops = check_stop_key_def sleep_def sample_text_def retry_action_def Let_def

lemma delay_loop_frame:
  "delay_loop e d k w = (b, w') \<Longrightarrow>
     samples w' = samples w \<and> retries w' = retries w \<and> world.more w' = world.more w"
  by (induction k arbitrary: w) (auto simp: ops split: prod.splits bool.splits if_splits)

lemma delay_loop_history:
  "delay_loop e d k w = (b, w') \<Longrightarrow> text_history w' = text_history w"
  by (induction k arbitrary: w) (auto simp: ops split: prod.splits bool.splits if_splits)

lemma reroll_and_wait_frame:
  "reroll_and_wait e d k w = (r, w') \<Longrightarrow>
     samples w' = samples w \<and> retries w' = retries w + 1 \<and> world.more w' = world.more w"
  by (auto simp: reroll_and_wait_def ops split: prod.splits bool.splits option.splits
           dest!: delay_loop_frame)

lemma reroll_and_wait_kworld:
  "reroll_and_wait e d k w = (r, w') \<Longrightarrow>
     samples w' = samples w \<and> retries w' = retries w + 1 \<and> text_history w' = text_history w"
  by (auto simp: reroll_and_wait_def ops split: prod.splits bool.splits option.splits
           dest: delay_loop_history delay_loop_frame)

section \<open>The stuck detector and the history\<close>

lemma text_unchanged_iff: "text_unchanged h \<longleftrightarrow> (\<exists>t. h = [t, t, t])"
proof
  assume stuck: "text_unchanged h"
  then obtain a b c where "h = [a, b, c]"
    by (auto simp: text_unchanged_def length_Suc_conv numeral_3_eq_3)
  with stuck show "\<exists>t. h = [t, t, t]" by (simp add: text_unchanged_def)
qed (auto simp: text_unchanged_def)

text \<open>
  C1. The detector signals stuck exactly on a history of three identical entries: three
  entries of which one differs, and any shorter history, never signal. In the loop, a
  round that is not cancelled at its head and whose sample makes the history three
  identical texts ends the run as Stuck: that round's sampling is the last one, no
  retry action follows, and the loop returns Stuck however many more rounds it is
  allowed.
\<close>

theorem stuck_detector:
  "(text_unchanged h \<longleftrightarrow> (\<exists>t. h = [t, t, t]))
   \<and> (text_unchanged [a, b, c] \<longleftrightarrow> a = b \<and> b = c)
   \<and> (length h < 3 \<longrightarrow> \<not> text_unchanged h)
   \<and> (\<not> stop_key e (polls w) \<and> ocr e (samples w) = Some t
        \<and> remember (text_history w) t = [t, t, t]
        \<longrightarrow> (\<exists>w'. keyword_iteration e max_mode w = (Some Stuck, w')
                  \<and> samples w' = samples w + 1 \<and> retries w' = retries w
                  \<and> (\<forall>n. keyword_loop e max_mode (Suc n) w = (Some Stuck, w'))))"
proof (intro conjI impI)
  show "text_unchanged h \<longleftrightarrow> (\<exists>t. h = [t, t, t])" by (rule text_unchanged_iff)
  show "text_unchanged [a, b, c] \<longleftrightarrow> a = b \<and> b = c" by (simp add: text_unchanged_def)
  show "\<not> text_unchanged h" if "length h < 3" using that by (simp add: text_unchanged_def)
  assume "\<not> stop_key e (polls w) \<and> ocr e (samples w) = Some t
            \<and> remember (text_history w) t = [t, t, t]"
  then have "\<exists>w'. keyword_iteration e max_mode w = (Some Stuck, w')
                  \<and> samples w' = samples w + 1 \<and> retries w' = retries w"
    by (simp add: keyword_iteration_def scan_for_stats_def ops stats_of_text_def
          text_unchanged_def)
  then show "\<exists>w'. keyword_iteration e max_mode w = (Some Stuck, w')
                  \<and> samples w' = samples w + 1 \<and> retries w' = retries w
                  \<and> (\<forall>n. keyword_loop e max_mode (Suc n) w = (Some Stuck, w'))"
    by auto
qed

text \<open>
  At a concrete input: a script of four samples of which the first three read the same;
  the third round starts with the history holding two of them.
\<close>

theorem stuck_detector_witness:
  "text_unchanged [''+9 STR'', ''+9 STR'', ''+9 STR'']
   \<and> \<not> text_unchanged [''+9 STR'', ''+9 STR'', ''+8 STR'']
   \<and> \<not> text_unchanged [''+9 STR'', ''+9 STR'']
   \<and> (\<exists>w'. keyword_loop
              \<lparr>stop_key = (\<lambda>n. False),
               ocr = (\<lambda>n. if n < 3 then Some ''+9 STR'' else Some ''mesos''),
               retry = (\<lambda>n. Some True)\<rparr>
              False (Suc 1)
              \<lparr>polls = 10, samples = 2, retries = 2, log = [],
               text_history = [''+9 STR'', ''+9 STR'']\<rparr> = (Some Stuck, w')
            \<and> samples w' = 3 \<and> retries w' = 2)"
proof -
  let ?e = "\<lparr>stop_key = (\<lambda>n. False),
             ocr = (\<lambda>n. if n < 3 then Some ''+9 STR'' else Some ''mesos''),
             retry = (\<lambda>n. Some True)\<rparr>"
  let ?w = "\<lparr>polls = 10, samples = 2, retries = 2, log = [],
             text_history = [''+9 STR'', ''+9 STR'']\<rparr>"
  note inst = stuck_detector [where h = "[''+9 STR'', ''+9 STR'']" and a = "''+9 STR''"
      and b = "''+9 STR''" and c = "''+8 STR''" and e = ?e and w = ?w and t = "''+9 STR''"
      and max_mode = False]
  have pre: "\<not> stop_key ?e (polls ?w) \<and> ocr ?e (samples ?w) = Some ''+9 STR''
      \<and> remember (text_history ?w) ''+9 STR'' = [''+9 STR'', ''+9 STR'', ''+9 STR'']"
    by (simp add: remember_def)
  from inst pre obtain w' where
    "\<forall>n. keyword_loop ?e False (Suc n) ?w = (Some Stuck, w')"
    "samples w' = samples ?w + 1" "retries w' = retries ?w"
    by blast
  then have run: "\<exists>w'. keyword_loop ?e False (Suc 1) ?w = (Some Stuck, w')
      \<and> samples w' = 3 \<and> retries w' = 2"
    by (intro exI[of _ w']) simp
  have "text_unchanged [''+9 STR'', ''+9 STR'', ''+9 STR'']"
    using stuck_detector [where h = "[''+9 STR'', ''+9 STR'', ''+9 STR'']"] by blast
  moreover have "\<not> text_unchanged [''+9 STR'', ''+9 STR'', ''+8 STR'']"
    using inst by simp
  moreover have "\<not> text_unchanged [''+9 STR'', ''+9 STR'']"
    using inst by simp
  ultimately show ?thesis using run by blast
qed

lemma seen_texts_Suc:
  "seen_texts e (Suc k) = seen_texts e k @ (case ocr e k of None \<Rightarrow> [] | Some t \<Rightarrow> [t])"
  by (simp add: seen_texts_def List.map_filter_def split: option.splits)

lemma remember_last3:
  "remember (drop (length xs - 3) xs) t = drop (length xs - 2) xs @ [t]"
proof (cases "length xs < 3")
  case True
  then show ?thesis by (simp add: remember_def)
next
  case False
  then have "drop (length xs - 3) xs \<noteq> []" by simp
  moreover have "Suc (length xs - 3) = length xs - 2" using False by simp
  then have "tl (drop (length xs - 3) xs) = drop (length xs - 2) xs"
    by (simp add: tl_drop drop_Suc[symmetric] del: drop_Suc)
  ultimately show ?thesis using False by (simp add: remember_def)
qed

text \<open>The invariant of the loop head: the history is the last three texts seen.\<close>

lemma keyword_iteration_fifo:
  assumes "text_history w = drop (length (seen_texts e (samples w)) - 3) (seen_texts e (samples w))"
    and "keyword_iteration e mm w = (r, w')"
  shows "text_history w' = drop (length (seen_texts e (samples w')) - 3) (seen_texts e (samples w'))"
  using assms
  by (auto simp: keyword_iteration_def scan_for_stats_def ops seen_texts_Suc
        stats_of_text_def remember_last3
      split: prod.splits bool.splits option.splits if_splits
      dest!: reroll_and_wait_kworld)

lemma keyword_loop_fifo:
  "text_history w = drop (length (seen_texts e (samples w)) - 3) (seen_texts e (samples w)) \<Longrightarrow>
   keyword_loop e mm n w = (r, w') \<Longrightarrow>
   text_history w' = drop (length (seen_texts e (samples w')) - 3) (seen_texts e (samples w'))"
proof (induction n arbitrary: w)
  case 0
  then show ?case by simp
next
  case (Suc n)
  obtain r1 w1 where it: "keyword_iteration e mm w = (r1, w1)"
    by (cases "keyword_iteration e mm w")
  with Suc.prems(1)
  have inv1: "text_history w1 =
      drop (length (seen_texts e (samples w1)) - 3) (seen_texts e (samples w1))"
    by (rule keyword_iteration_fifo)
  show ?case
  proof (cases r1)
    case None
    with it Suc.prems(2) have "keyword_loop e mm n w1 = (r, w')" by simp
    with inv1 show ?thesis by (rule Suc.IH)
  next
    case (Some a)
    with it Suc.prems(2) inv1 show ?thesis by simp
  qed
qed

text \<open>
  C9. After any number of rounds of the keyword loop, started with an empty history,
  the history holds at most 3 texts, and they are the last texts sampled, oldest first:
  each sample was appended and the oldest entry dropped beyond three.
\<close>

theorem history_bounded_fifo:
  "length (text_history (snd (keyword_loop e max_mode n keyword_start))) \<le> 3
   \<and> text_history (snd (keyword_loop e max_mode n keyword_start)) =
       (let seen = seen_texts e (samples (snd (keyword_loop e max_mode n keyword_start)))
        in drop (length seen - 3) seen)"
proof -
  obtain r w' where run: "keyword_loop e max_mode n keyword_start = (r, w')"
    by (cases "keyword_loop e max_mode n keyword_start")
  have "text_history keyword_start =
      drop (length (seen_texts e (samples keyword_start)) - 3)
        (seen_texts e (samples keyword_start))"
    by (simp add: keyword_start_def seen_texts_def List.map_filter_def)
  then have "text_history w' =
      drop (length (seen_texts e (samples w')) - 3) (seen_texts e (samples w'))"
    using run by (rule keyword_loop_fifo)
  then show ?thesis using run by (simp add: Let_def)
qed

section \<open>The keyword policy and the cancellation polls\<close>

lemma py_in_sublist: "py_in needle hay \<longleftrightarrow> sublist needle hay"
  by (induction hay) (cases needle; simp add: sublist_code)+

lemma prime_line_count_eq:
  "prime_lines_found (stats_of_text txt) = prime_line_count txt"
  by (auto simp: prime_lines_found_def stats_of_text_def prime_line_count_def py_in_sublist Let_def
      Collect_conv_if card_insert_if conj_disj_distribR Collect_disj_eq)

lemma desired_iff_threshold:
  "desired_stats_found max_mode (stats_of_text txt) \<longleftrightarrow> threshold max_mode \<le> prime_line_count txt"
  unfolding desired_stats_found_def prime_line_count_eq threshold_def by auto

text \<open>
  C4. In a round of the keyword loop that is not cancelled at its head, takes a sample
  and is not stopped by the stuck detector, the run ends as Succeeded exactly when the
  prime-line count of the text, the number of the two labels that occur somewhere in
  the lower-cased text, reaches the threshold, 1 in standard operation and 2 in max
  mode; no number needs to follow a label. Below the threshold the retry action is
  invoked.
\<close>

theorem keyword_goal:
  "\<not> stop_key e (polls w) \<and> ocr e (samples w) = Some raw
     \<and> \<not> text_unchanged (remember (text_history w) raw) \<longrightarrow>
   (fst (keyword_iteration e max_mode w) = Some Succeeded \<longleftrightarrow> threshold max_mode \<le> prime_line_count raw)
   \<and> (threshold max_mode \<le> prime_line_count raw \<longrightarrow>
        retries (snd (keyword_iteration e max_mode w)) = retries w
        \<and> (\<forall>n. fst (keyword_loop e max_mode (Suc n) w) = Some Succeeded))
   \<and> (prime_line_count raw < threshold max_mode \<longrightarrow>
        retries (snd (keyword_iteration e max_mode w)) = retries w + 1)"
proof (intro impI)
  assume a: "\<not> stop_key e (polls w) \<and> ocr e (samples w) = Some raw
     \<and> \<not> text_unchanged (remember (text_history w) raw)"
  let ?w3 = "w\<lparr>polls := polls w + 1, log := Poll False # log w,
      samples := samples w + 1, log := Sample True # Poll False # log w,
      text_history := remember (text_history w) raw\<rparr>"
  have it: "keyword_iteration e max_mode w =
      (if desired_stats_found max_mode (stats_of_text raw) then (Some Succeeded, ?w3)
       else reroll_and_wait e reroll_delay split_delay ?w3)"
    using a by (simp add: keyword_iteration_def scan_for_stats_def ops stats_of_text_def)
  obtain r w' where rw: "reroll_and_wait e reroll_delay split_delay ?w3 = (r, w')"
    by (cases "reroll_and_wait e reroll_delay split_delay ?w3")
  then have r: "r \<noteq> Some Succeeded" and w': "retries w' = retries w + 1"
    using reroll_and_wait_frame[OF rw]
    by (auto simp: reroll_and_wait_def split: prod.splits option.splits bool.splits)
  show "(fst (keyword_iteration e max_mode w) = Some Succeeded \<longleftrightarrow> threshold max_mode \<le> prime_line_count raw)
   \<and> (threshold max_mode \<le> prime_line_count raw \<longrightarrow>
        retries (snd (keyword_iteration e max_mode w)) = retries w
        \<and> (\<forall>n. fst (keyword_loop e max_mode (Suc n) w) = Some Succeeded))
   \<and> (prime_line_count raw < threshold max_mode \<longrightarrow>
        retries (snd (keyword_iteration e max_mode w)) = retries w + 1)"
    using it rw r w' by (auto simp: desired_iff_threshold)
qed



text \<open>
  At a concrete input: a text that names the drop-rate label without any number ends the
  standard run at once, and is retried in max mode.
\<close>

theorem keyword_goal_witness:
  "prime_line_count ''Item Drop'' = 1
   \<and> extract_item_drop_rate ''Item Drop'' = 0
   \<and> fst (keyword_loop \<lparr>stop_key = (\<lambda>n. False), ocr = (\<lambda>n. Some ''Item Drop''),
             retry = (\<lambda>n. Some True)\<rparr> False (Suc 0) keyword_start) = Some Succeeded
   \<and> fst (keyword_iteration \<lparr>stop_key = (\<lambda>n. False), ocr = (\<lambda>n. Some ''Item Drop''),
             retry = (\<lambda>n. Some True)\<rparr> True keyword_start) \<noteq> Some Succeeded
   \<and> retries (snd (keyword_iteration \<lparr>stop_key = (\<lambda>n. False), ocr = (\<lambda>n. Some ''Item Drop''),
             retry = (\<lambda>n. Some True)\<rparr> True keyword_start)) = 1"
proof -
  let ?e = "\<lparr>stop_key = (\<lambda>n. False), ocr = (\<lambda>n. Some ''Item Drop''),
             retry = (\<lambda>n. Some True)\<rparr>"
  have count: "prime_line_count ''Item Drop'' = 1"
    using prime_line_count_eq[of "''Item Drop''", symmetric] by code_simp
  have pre: "\<not> stop_key ?e (polls keyword_start) \<and> ocr ?e (samples keyword_start) = Some ''Item Drop''
     \<and> \<not> text_unchanged (remember (text_history keyword_start) ''Item Drop'')"
    by (simp add: keyword_start_def remember_def text_unchanged_def)
  note plain = keyword_goal [where e = ?e and w = keyword_start and raw = "''Item Drop''"
      and max_mode = False]
  note maxi = keyword_goal [where e = ?e and w = keyword_start and raw = "''Item Drop''"
      and max_mode = True]
  from plain pre count have "fst (keyword_loop ?e False (Suc 0) keyword_start) = Some Succeeded"
    by (simp add: threshold_def)
  moreover from maxi pre count
  have "fst (keyword_iteration ?e True keyword_start) \<noteq> Some Succeeded
     \<and> retries (snd (keyword_iteration ?e True keyword_start)) = 1"
    by (simp add: threshold_def keyword_start_def)
  moreover have "extract_item_drop_rate ''Item Drop'' = 0" by code_simp
  ultimately show ?thesis using count by simp
qed

lemma delay_loop_paced:
  "delay_loop e s k w = (b, w') \<Longrightarrow> sleeps_polled s (log w) \<Longrightarrow> Poll True \<notin> set (log w) \<Longrightarrow>
     sleeps_polled s (log w') \<and> (Poll True \<in> set (log w') \<longleftrightarrow> b)
     \<and> (b \<longrightarrow> hd (log w') = Poll True)
     \<and> (log w \<noteq> [] \<longrightarrow> log w' \<noteq> [] \<and> last (log w') = last (log w))"
proof (induction k arbitrary: w)
  case 0
  then show ?case by auto
next
  case (Suc k)
  show ?case
  proof (cases "stop_key e (polls w)")
    case True
    with Suc.prems show ?thesis by (auto simp: ops)
  next
    case False
    let ?w2 = "sleep s (snd (check_stop_key e w))"
    from False Suc.prems(1) have run: "delay_loop e s k ?w2 = (b, w')" by (simp add: ops)
    have "sleeps_polled s (log ?w2)" "Poll True \<notin> set (log ?w2)"
      using False Suc.prems(2,3) by (simp_all add: ops)
    from Suc.IH[OF run this] show ?thesis by (auto simp: ops)
  qed
qed

lemma reroll_and_wait_paced:
  assumes "reroll_and_wait e d k w = (r, w')" "sleeps_polled (d / of_nat k) (log w)"
    "Poll True \<notin> set (log w)"
  shows "sleeps_polled (d / of_nat k) (log w') \<and> (Poll True \<in> set (log w') \<longleftrightarrow> r = Some Cancelled)
     \<and> (r = Some Cancelled \<longrightarrow> hd (log w') = Poll True) \<and> r \<noteq> Some Succeeded \<and> r \<noteq> Some Stuck
     \<and> log w' \<noteq> [] \<and> (log w \<noteq> [] \<longrightarrow> last (log w') = last (log w))"
proof (cases "retry e (retries w)")
  case None
  with assms show ?thesis by (auto simp: reroll_and_wait_def ops)
next
  case (Some a)
  let ?w1 = "snd (retry_action e w)"
  obtain b where run: "delay_loop e (d / of_nat k) k ?w1 = (b, w')" and r: "r = (if b then Some Cancelled else None)"
    using assms(1) Some by (auto simp: reroll_and_wait_def ops split: prod.splits bool.splits)
  have "sleeps_polled (d / of_nat k) (log ?w1)" "Poll True \<notin> set (log ?w1)"
    using assms(2,3) by (simp_all add: ops)
  from delay_loop_paced[OF run this] r show ?thesis by (auto simp: ops)
qed

lemma keyword_iteration_paced:
  assumes "keyword_iteration e mm w = (r, w')"
    "sleeps_polled (reroll_delay / of_nat split_delay) (log w)" "Poll True \<notin> set (log w)"
    "log w = [] \<or> (\<exists>b. last (log w) = Poll b)"
  shows "sleeps_polled (reroll_delay / of_nat split_delay) (log w') \<and> (Poll True \<in> set (log w') \<longleftrightarrow> r = Some Cancelled)
     \<and> (r = Some Cancelled \<longrightarrow> hd (log w') = Poll True)
     \<and> log w' \<noteq> [] \<and> (\<exists>b. last (log w') = Poll b)"
  using assms
  by (auto simp: keyword_iteration_def scan_for_stats_def ops
      split: prod.splits bool.splits option.splits if_splits
      dest!: reroll_and_wait_paced)

lemma comparative_iteration_paced:
  assumes "comparative_iteration e M S w = (r, w')"
    "sleeps_polled (REROLL_DELAY / of_nat SPLIT_DELAY) (log w)" "Poll True \<notin> set (log w)"
    "log w = [] \<or> (\<exists>b. last (log w) = Poll b)"
  shows "sleeps_polled (REROLL_DELAY / of_nat SPLIT_DELAY) (log w') \<and> (Poll True \<in> set (log w') \<longleftrightarrow> r = Some Cancelled)
     \<and> (r = Some Cancelled \<longrightarrow> hd (log w') = Poll True)
     \<and> log w' \<noteq> [] \<and> (\<exists>b. last (log w') = Poll b)"
  using assms
  by (auto simp: comparative_iteration_def capture_and_extract_def ops
      split: prod.splits bool.splits option.splits if_splits
      dest!: reroll_and_wait_paced)


lemma keyword_loop_paced:
  "keyword_loop e mm n w = (r, w') \<Longrightarrow>
   sleeps_polled (reroll_delay / of_nat split_delay) (log w) \<Longrightarrow> Poll True \<notin> set (log w) \<Longrightarrow>
   log w = [] \<or> (\<exists>b. last (log w) = Poll b) \<Longrightarrow>
   sleeps_polled (reroll_delay / of_nat split_delay) (log w')
     \<and> (Poll True \<in> set (log w') \<longleftrightarrow> r = Some Cancelled)
     \<and> (r = Some Cancelled \<longrightarrow> hd (log w') = Poll True)
     \<and> (log w' = [] \<or> (\<exists>b. last (log w') = Poll b))"
proof (induction n arbitrary: w)
  case 0
  then show ?case by auto
next
  case (Suc n)
  obtain r1 w1 where it: "keyword_iteration e mm w = (r1, w1)"
    by (cases "keyword_iteration e mm w")
  note step = keyword_iteration_paced[OF it Suc.prems(2,3,4)]
  show ?case
  proof (cases r1)
    case None
    with it Suc.prems(1) have run: "keyword_loop e mm n w1 = (r, w')" by simp
    from step None have "sleeps_polled (reroll_delay / of_nat split_delay) (log w1)"
      "Poll True \<notin> set (log w1)" "log w1 = [] \<or> (\<exists>b. last (log w1) = Poll b)"
      by auto
    from Suc.IH[OF run this] show ?thesis .
  next
    case (Some a)
    with it Suc.prems(1) have "r = r1" "w' = w1" by auto
    with step show ?thesis by auto
  qed
qed

lemma comparative_loop_paced:
  "comparative_loop e M S n w = (r, w') \<Longrightarrow>
   sleeps_polled (REROLL_DELAY / of_nat SPLIT_DELAY) (log w) \<Longrightarrow> Poll True \<notin> set (log w) \<Longrightarrow>
   log w = [] \<or> (\<exists>b. last (log w) = Poll b) \<Longrightarrow>
   sleeps_polled (REROLL_DELAY / of_nat SPLIT_DELAY) (log w')
     \<and> (Poll True \<in> set (log w') \<longleftrightarrow> r = Some Cancelled)
     \<and> (r = Some Cancelled \<longrightarrow> hd (log w') = Poll True)
     \<and> (log w' = [] \<or> (\<exists>b. last (log w') = Poll b))"
proof (induction n arbitrary: w)
  case 0
  then show ?case by auto
next
  case (Suc n)
  obtain r1 w1 where it: "comparative_iteration e M S w = (r1, w1)"
    by (cases "comparative_iteration e M S w")
  note step = comparative_iteration_paced[OF it Suc.prems(2,3,4)]
  show ?case
  proof (cases r1)
    case None
    with it Suc.prems(1) have run: "comparative_loop e M S n w1 = (r, w')" by simp
    from step None have "sleeps_polled (REROLL_DELAY / of_nat SPLIT_DELAY) (log w1)"
      "Poll True \<notin> set (log w1)" "log w1 = [] \<or> (\<exists>b. last (log w1) = Poll b)"
      by auto
    from Suc.IH[OF run this] show ?thesis .
  next
    case (Some a)
    with it Suc.prems(1) have "r = r1" "w' = w1" by auto
    with step show ?thesis by auto
  qed
qed

lemma delay_loop_quiet:
  "(\<forall>i<k. \<not> stop_key e (polls w + i)) \<Longrightarrow>
     delay_loop e d k w =
       (False, w\<lparr>polls := polls w + k,
                 log := concat (replicate k [Sleep d, Poll False]) @ log w\<rparr>)"
proof (induction k arbitrary: w)
  case 0
  then show ?case by simp
next
  case (Suc k)
  let ?w2 = "sleep d (snd (check_stop_key e w))"
  have quiet: "\<not> stop_key e (polls w)"
    using Suc.prems by (metis add.right_neutral zero_less_Suc)
  have "\<forall>i<k. \<not> stop_key e (polls ?w2 + i)"
    using Suc.prems by (auto simp: ops)
  from Suc.IH[OF this] quiet have "delay_loop e d (Suc k) w =
     (False, ?w2\<lparr>polls := polls ?w2 + k,
                 log := concat (replicate k [Sleep d, Poll False]) @ log ?w2\<rparr>)"
    by (simp add: ops)
  moreover have "concat (replicate k [Sleep d, Poll False]) @ [Sleep d, Poll False]
      = concat (replicate (Suc k) [Sleep d, Poll False])"
    by (induction k) simp_all
  then have "concat (replicate k [Sleep d, Poll False]) @ Sleep d # Poll False # log w
      = concat (replicate (Suc k) [Sleep d, Poll False]) @ log w"
    by (metis append.assoc append_Cons append_Nil)
  ultimately show ?case using quiet by (simp add: ops)
qed

lemma delay_loop_cancel:
  "fst (delay_loop e d k w) \<longleftrightarrow> (\<exists>i<k. stop_key e (polls w + i))"
proof (induction k arbitrary: w)
  case 0
  then show ?case by simp
next
  case (Suc k)
  show ?case
  proof (cases "stop_key e (polls w)")
    case True
    then show ?thesis by (auto simp: ops)
  next
    case False
    have "(\<exists>i<Suc k. stop_key e (polls w + i)) \<longleftrightarrow> (\<exists>i<k. stop_key e (polls w + Suc i))"
      using False by (metis (no_types, lifting) Suc_less_eq add.right_neutral less_Suc_eq_0_disj)
    with False Suc.IH[of "sleep d (snd (check_stop_key e w))"] show ?thesis
      by (simp add: ops)
  qed
qed


lemma reroll_and_wait_quiet:
  assumes "retry e (retries w) \<noteq> None" "\<forall>i<4. \<not> stop_key e (polls w + i)"
  shows "reroll_and_wait e d 4 w =
     (None, w\<lparr>retries := retries w + 1, polls := polls w + 4,
              log := [Sleep (d / 4), Poll False, Sleep (d / 4), Poll False,
                      Sleep (d / 4), Poll False, Sleep (d / 4), Poll False, Retry] @ log w\<rparr>)"
proof -
  let ?w1 = "snd (retry_action e w)"
  have "\<forall>i<4. \<not> stop_key e (polls ?w1 + i)" using assms(2) by (simp add: ops)
  from delay_loop_quiet[OF this, of "d / 4"] assms(1) show ?thesis
    by (auto simp: reroll_and_wait_def ops eval_nat_numeral)
qed

lemma reroll_and_wait_cancel:
  assumes "retry e (retries w) \<noteq> None" "\<exists>i<k. stop_key e (polls w + i)"
  shows "fst (reroll_and_wait e d k w) = Some Cancelled"
proof -
  let ?w1 = "snd (retry_action e w)"
  have "fst (delay_loop e (d / of_nat k) k ?w1)"
    using assms(2) by (simp add: delay_loop_cancel ops)
  with assms(1) show ?thesis
    by (auto simp: reroll_and_wait_def ops split: prod.splits bool.splits)
qed

text \<open>
  C8. Both scripts split the delay in 4. After a retry action that returned, when no
  stop request is seen, the loop polls and sleeps a quarter of the delay four times over
  and goes back to the loop head; a stop request seen at one of the four polls ends
  the run as Cancelled. In every run of either loop from its start, each sleep of the
  loop lasts one quarter of the delay and comes right after a poll that saw no stop
  request, the first event is a poll, and a poll has seen a stop request exactly when
  the outcome is Cancelled; that poll is then the last event.
\<close>

theorem cancellation_polling:
  "split_delay = 4 \<and> SPLIT_DELAY = 4
   \<and> (retry e (retries w) \<noteq> None \<and> (\<forall>i<4. \<not> stop_key e (polls w + i)) \<longrightarrow>
        reroll_and_wait e d 4 w =
          (None, w\<lparr>retries := retries w + 1, polls := polls w + 4,
                   log := [Sleep (d / 4), Poll False, Sleep (d / 4), Poll False,
                           Sleep (d / 4), Poll False, Sleep (d / 4), Poll False, Retry]
                          @ log w\<rparr>))
   \<and> (retry e (retries w) \<noteq> None \<and> (\<exists>i<4. stop_key e (polls w + i)) \<longrightarrow>
        fst (reroll_and_wait e d 4 w) = Some Cancelled)
   \<and> (keyword_loop e max_mode n keyword_start = (kr, kw) \<longrightarrow>
        sleeps_polled (reroll_delay / 4) (log kw)
        \<and> (Poll True \<in> set (log kw) \<longleftrightarrow> kr = Some Cancelled)
        \<and> (kr = Some Cancelled \<longrightarrow> hd (log kw) = Poll True)
        \<and> (log kw = [] \<or> (\<exists>b. last (log kw) = Poll b)))
   \<and> (comparative_loop e MAIN_STAT SECONDARY_STAT n comparative_start = (cr, cw) \<longrightarrow>
        sleeps_polled (REROLL_DELAY / 4) (log cw)
        \<and> (Poll True \<in> set (log cw) \<longleftrightarrow> cr = Some Cancelled)
        \<and> (cr = Some Cancelled \<longrightarrow> hd (log cw) = Poll True)
        \<and> (log cw = [] \<or> (\<exists>b. last (log cw) = Poll b)))"
proof (intro conjI impI)
  show "split_delay = 4" by (simp add: split_delay_def)
  show "SPLIT_DELAY = 4" by (simp add: SPLIT_DELAY_def)
  show "reroll_and_wait e d 4 w =
          (None, w\<lparr>retries := retries w + 1, polls := polls w + 4,
                   log := [Sleep (d / 4), Poll False, Sleep (d / 4), Poll False,
                           Sleep (d / 4), Poll False, Sleep (d / 4), Poll False, Retry]
                          @ log w\<rparr>)"
    if "retry e (retries w) \<noteq> None \<and> (\<forall>i<4. \<not> stop_key e (polls w + i))"
    using that reroll_and_wait_quiet by blast
  show "fst (reroll_and_wait e d 4 w) = Some Cancelled"
    if "retry e (retries w) \<noteq> None \<and> (\<exists>i<4. stop_key e (polls w + i))"
    using that reroll_and_wait_cancel by blast
next
  assume run: "keyword_loop e max_mode n keyword_start = (kr, kw)"
  have "sleeps_polled (reroll_delay / of_nat split_delay) (log keyword_start)"
    "Poll True \<notin> set (log keyword_start)"
    "log keyword_start = [] \<or> (\<exists>b. last (log keyword_start) = Poll b)"
    by (simp_all add: keyword_start_def)
  from keyword_loop_paced[OF run this]
  have k: "sleeps_polled (reroll_delay / 4) (log kw)
      \<and> (Poll True \<in> set (log kw) \<longleftrightarrow> kr = Some Cancelled)
      \<and> (kr = Some Cancelled \<longrightarrow> hd (log kw) = Poll True)
      \<and> (log kw = [] \<or> (\<exists>b. last (log kw) = Poll b))"
    by (simp add: split_delay_def)
  from k show "sleeps_polled (reroll_delay / 4) (log kw)" by blast
  from k show "Poll True \<in> set (log kw) \<longleftrightarrow> kr = Some Cancelled" by blast
  from k show "hd (log kw) = Poll True" if "kr = Some Cancelled" using that by blast
  from k show "log kw = [] \<or> (\<exists>b. last (log kw) = Poll b)" by blast
next
  assume run: "comparative_loop e MAIN_STAT SECONDARY_STAT n comparative_start = (cr, cw)"
  have "sleeps_polled (REROLL_DELAY / of_nat SPLIT_DELAY) (log comparative_start)"
    "Poll True \<notin> set (log comparative_start)"
    "log comparative_start = [] \<or> (\<exists>b. last (log comparative_start) = Poll b)"
    by (simp_all add: comparative_start_def)
  from comparative_loop_paced[OF run this]
  have c: "sleeps_polled (REROLL_DELAY / 4) (log cw)
      \<and> (Poll True \<in> set (log cw) \<longleftrightarrow> cr = Some Cancelled)
      \<and> (cr = Some Cancelled \<longrightarrow> hd (log cw) = Poll True)
      \<and> (log cw = [] \<or> (\<exists>b. last (log cw) = Poll b))"
    by (simp add: SPLIT_DELAY_def)
  from c show "sleeps_polled (REROLL_DELAY / 4) (log cw)" by blast
  from c show "Poll True \<in> set (log cw) \<longleftrightarrow> cr = Some Cancelled" by blast
  from c show "hd (log cw) = Poll True" if "cr = Some Cancelled" using that by blast
  from c show "log cw = [] \<or> (\<exists>b. last (log cw) = Poll b)" by blast
qed

text \<open>
  At a concrete input: the stop key is down at the seventh poll, in the second delay of
  the keyword loop.
\<close>

theorem cancellation_polling_witness:
  "reroll_and_wait \<lparr>stop_key = (\<lambda>n. n = 6), ocr = (\<lambda>n. Some ''''), retry = (\<lambda>n. Some True)\<rparr>
       1 4 comparative_start
     = (None, \<lparr>polls = 4, samples = 0, retries = 1,
           log = [Sleep (1 / 4), Poll False, Sleep (1 / 4), Poll False,
                  Sleep (1 / 4), Poll False, Sleep (1 / 4), Poll False, Retry]\<rparr>)
   \<and> fst (reroll_and_wait \<lparr>stop_key = (\<lambda>n. n = 6), ocr = (\<lambda>n. Some ''''), retry = (\<lambda>n. Some True)\<rparr>
       1 4 (comparative_start\<lparr>polls := 5\<rparr>)) = Some Cancelled
   \<and> fst (keyword_loop \<lparr>stop_key = (\<lambda>n. n = 6), ocr = (\<lambda>n. Some ''''), retry = (\<lambda>n. Some True)\<rparr>
       False 2 keyword_start) = Some Cancelled
   \<and> sleeps_polled (1 / 4) (log (snd (keyword_loop
       \<lparr>stop_key = (\<lambda>n. n = 6), ocr = (\<lambda>n. Some ''''), retry = (\<lambda>n. Some True)\<rparr>
       False 2 keyword_start)))
   \<and> hd (log (snd (keyword_loop
       \<lparr>stop_key = (\<lambda>n. n = 6), ocr = (\<lambda>n. Some ''''), retry = (\<lambda>n. Some True)\<rparr>
       False 2 keyword_start))) = Poll True
   \<and> fst (comparative_loop
       \<lparr>stop_key = (\<lambda>n. n = 6), ocr = (\<lambda>n. if n = 0 then Some ''DEX +9'' else Some ''DEX +1''),
        retry = (\<lambda>n. Some True)\<rparr>
       ''DEX'' ''STR'' 2 comparative_start) = Some Cancelled
   \<and> Poll True \<in> set (log (snd (comparative_loop
       \<lparr>stop_key = (\<lambda>n. n = 6), ocr = (\<lambda>n. if n = 0 then Some ''DEX +9'' else Some ''DEX +1''),
        retry = (\<lambda>n. Some True)\<rparr>
       ''DEX'' ''STR'' 2 comparative_start)))"
proof -
  let ?e = "\<lparr>stop_key = (\<lambda>n. n = 6), ocr = (\<lambda>n. Some ''''), retry = (\<lambda>n. Some True)\<rparr>"
  let ?c = "\<lparr>stop_key = (\<lambda>n. n = 6),
             ocr = (\<lambda>n. if n = 0 then Some ''DEX +9'' else Some ''DEX +1''),
             retry = (\<lambda>n. Some True)\<rparr>"
  obtain kr kw where krun: "keyword_loop ?e False 2 keyword_start = (kr, kw)"
    by (cases "keyword_loop ?e False 2 keyword_start")
  obtain cr cw where crun: "comparative_loop ?c ''DEX'' ''STR'' 2 comparative_start = (cr, cw)"
    by (cases "comparative_loop ?c ''DEX'' ''STR'' 2 comparative_start")
  have "fst (keyword_loop ?e False 2 keyword_start) = Some Cancelled" by code_simp
  with krun have kr: "kr = Some Cancelled" by simp
  have "fst (comparative_loop ?c ''DEX'' ''STR'' 2 comparative_start) = Some Cancelled"
    by code_simp
  with crun have cr: "cr = Some Cancelled" by simp
  note k = cancellation_polling [where e = ?e and w = comparative_start and d = 1
      and max_mode = False and n = 2 and kr = kr and kw = kw]
  note k5 = cancellation_polling [where e = ?e and w = "comparative_start\<lparr>polls := 5\<rparr>"
      and d = 1]
  note c = cancellation_polling [where e = ?c and MAIN_STAT = "''DEX''"
      and SECONDARY_STAT = "''STR''" and n = 2 and cr = cr and cw = cw]
  have quiet: "retry ?e (retries comparative_start) \<noteq> None
      \<and> (\<forall>i<4. \<not> stop_key ?e (polls comparative_start + i))"
    by (simp add: comparative_start_def)
  have loud: "retry ?e (retries (comparative_start\<lparr>polls := 5\<rparr>)) \<noteq> None
      \<and> (\<exists>i<4. stop_key ?e (polls (comparative_start\<lparr>polls := 5\<rparr>) + i))"
    by (auto simp: comparative_start_def intro!: exI[of _ 1])
  note slices = k [THEN conjunct2, THEN conjunct2, THEN conjunct1, THEN mp, OF quiet]
  note cancelled = k5 [THEN conjunct2, THEN conjunct2, THEN conjunct2, THEN conjunct1, THEN mp,
      OF loud]
  note krun_facts = k [THEN conjunct2, THEN conjunct2, THEN conjunct2, THEN conjunct2,
      THEN conjunct1, THEN mp, OF krun]
  note crun_facts = c [THEN conjunct2, THEN conjunct2, THEN conjunct2, THEN conjunct2,
      THEN conjunct2, THEN mp, OF crun]
  from slices have "reroll_and_wait ?e 1 4 comparative_start
     = (None, \<lparr>polls = 4, samples = 0, retries = 1,
           log = [Sleep (1 / 4), Poll False, Sleep (1 / 4), Poll False,
                  Sleep (1 / 4), Poll False, Sleep (1 / 4), Poll False, Retry]\<rparr>)"
    by (simp add: comparative_start_def)
  moreover from krun_facts kr
  have "sleeps_polled (1 / 4) (log kw) \<and> hd (log kw) = Poll True"
    by (simp add: reroll_delay_def)
  moreover from crun_facts cr have "Poll True \<in> set (log cw)" by simp
  ultimately show ?thesis using cancelled krun kr crun cr by simp
qed

section \<open>The comparative policy\<close>




section \<open>Failures of the sampling collaborators\<close>





section \<open>The scorer\<close>


section \<open>The comparative parser\<close>

lemma process_line_magic: "magic_attack (process_line M S st l) = magic_attack st"
  by (simp add: process_line_def Let_def split: sum.splits)

lemma foldl_magic: "magic_attack (foldl (process_line M S) st ls) = magic_attack st"
  by (induction ls arbitrary: st) (simp_all add: process_line_magic)





lemma py_split_nonempty: "py_split sep s \<noteq> []"
  by (induction s) (auto split: list.splits)




text \<open>
  C10. Whatever the text and the two configured attribute names, the parsed mapping has
  \<open>magic_attack = 0\<close>, and the flame score is the same for every value of that field.
\<close>

theorem magic_attack_never_set:
  "magic_attack (extract_stats MAIN_STAT SECONDARY_STAT txt) = 0
   \<and> calculate_flame_score (st\<lparr>magic_attack := m\<rparr>) = calculate_flame_score st"
  by (simp add: extract_stats_def foldl_magic initial_stats_def calculate_flame_score_def)

section \<open>The keyword parser\<close>

text \<open>The matcher of the code finds exactly the occurrences of the pattern.\<close>

lemma char_facts:
  "is_space c \<Longrightarrow> c \<noteq> CHR '':''" "is_space c \<Longrightarrow> c \<noteq> CHR ''+''"
  "is_space c \<Longrightarrow> \<not> is_digit c" "is_digit c \<Longrightarrow> c \<noteq> CHR '':''"
  "is_digit c \<Longrightarrow> c \<noteq> CHR ''+''" "\<not> is_digit CHR ''%''" "\<not> is_space CHR ''+''"
  "is_digit c \<Longrightarrow> \<not> is_space c" "is_digit c \<Longrightarrow> c \<noteq> CHR ''_''"
  "is_digit c \<Longrightarrow> c \<noteq> CHR ''-''"
  by (auto simp: is_space_def is_digit_def)

lemma match_literal_Some:
  "match_literal p s = Some r \<longleftrightarrow> (\<exists>lab. s = lab @ r \<and> map lower_char lab = map lower_char p)"
proof (induction p arbitrary: s)
  case Nil
  then show ?case by auto
next
  case (Cons a p)
  show ?case
  proof (cases s)
    case Nil
    then show ?thesis by auto
  next
    case (Cons c cs)
    show ?thesis
    proof
      assume "match_literal (a # p) s = Some r"
      with Cons have eq: "lower_char c = lower_char a" and "match_literal p cs = Some r"
        by (auto split: if_splits)
      with Cons.IH obtain lab where "cs = lab @ r" "map lower_char lab = map lower_char p"
        by blast
      with eq Cons have "s = (c # lab) @ r \<and> map lower_char (c # lab) = map lower_char (a # p)"
        by simp
      then show "\<exists>lab. s = lab @ r \<and> map lower_char lab = map lower_char (a # p)" by blast
    next
      assume "\<exists>lab. s = lab @ r \<and> map lower_char lab = map lower_char (a # p)"
      then obtain lab where l: "s = lab @ r" "map lower_char lab = map lower_char (a # p)"
        by blast
      then obtain x xs where "lab = x # xs" by (cases lab) auto
      with l Cons have "c = x" "cs = xs @ r" "lower_char x = lower_char a"
        "map lower_char xs = map lower_char p"
        by auto
      with Cons Cons.IH[of cs] show "match_literal (a # p) s = Some r" by auto
    qed
  qed
qed

lemma optional_char_split:
  "\<exists>opt. (opt = [] \<or> opt = [c]) \<and> s = opt @ optional_char c s"
  by (cases s) (auto simp: optional_char_def)

lemma optional_char_skip: "optional_char c (c # s) = s"
  by (simp add: optional_char_def)

lemma optional_char_keep: "s \<noteq> [] \<Longrightarrow> hd s \<noteq> c \<Longrightarrow> optional_char c s = s"
  by (cases s) (auto simp: optional_char_def)

lemma match_at_sound:
  assumes "match_at label s = Some (ds, n)"
  shows "\<exists>w rest. s = w @ rest \<and> pattern_match label w ds \<and> n = length w"
proof -
  from assms obtain s1 where s1: "match_literal label s = Some s1"
    by (auto simp: match_at_def split: option.splits)
  let ?s2 = "optional_char CHR '':'' s1"
  let ?s3 = "dropWhile is_space ?s2"
  let ?s4 = "optional_char CHR ''+'' ?s3"
  let ?s5 = "dropWhile is_digit ?s4"
  from assms s1 have ds: "ds = takeWhile is_digit ?s4" "ds \<noteq> []"
    and n: "n = length s - length ?s5 + 1"
    and pct: "\<exists>rest. ?s5 = CHR ''%'' # rest"
    by (auto simp: match_at_def Let_def split: if_splits list.splits)
  from pct obtain rest where rest: "?s5 = CHR ''%'' # rest" by blast
  from s1 obtain lab where lab: "s = lab @ s1" "map lower_char lab = map lower_char label"
    unfolding match_literal_Some by blast
  obtain colon where colon: "colon = [] \<or> colon = '':''" "s1 = colon @ ?s2"
    using optional_char_split[of "CHR '':''" s1] by auto
  obtain plus where plus: "plus = [] \<or> plus = ''+''" "?s3 = plus @ ?s4"
    using optional_char_split[of "CHR ''+''" ?s3] by auto
  let ?blanks = "takeWhile is_space ?s2"
  have s2: "?s2 = ?blanks @ ?s3" by simp
  have s4: "?s4 = ds @ ?s5" using ds by simp
  have whole: "s = (lab @ colon @ ?blanks @ plus @ ds @ ''%'') @ rest"
    using lab(1) colon(2) s2 plus(2) s4 rest by (metis append.assoc append_Cons append_Nil)
  have "list_all is_space ?blanks" "list_all is_digit ds"
    using ds(1) by (auto simp: list_all_iff dest: set_takeWhileD)
  with lab(2) colon(1) plus(1) ds(2)
  have pm: "pattern_match label (lab @ colon @ ?blanks @ plus @ ds @ ''%'') ds"
    unfolding pattern_match_def py_lower_def by blast
  have "length s = length (lab @ colon @ ?blanks @ plus @ ds @ ''%'') + length rest"
    using whole by (metis length_append)
  moreover have "length ?s5 = length rest + 1" using rest by simp
  ultimately have "n = length (lab @ colon @ ?blanks @ plus @ ds @ ''%'')"
    using n by simp
  with whole pm show ?thesis by blast
qed

lemma match_at_complete:
  assumes "pattern_match label w ds"
  shows "match_at label (w @ rest) = Some (ds, length w)"
proof -
  from assms obtain lab colon blanks plus where
    w: "w = lab @ colon @ blanks @ plus @ ds @ ''%''"
    and lab: "map lower_char lab = map lower_char label"
    and colon: "colon = [] \<or> colon = '':''"
    and blanks: "list_all is_space blanks"
    and plus: "plus = [] \<or> plus = ''+''"
    and ds: "ds \<noteq> []" "list_all is_digit ds"
    unfolding pattern_match_def py_lower_def by blast
  let ?s5 = "CHR ''%'' # rest"
  let ?s4 = "ds @ ?s5"
  let ?s3 = "plus @ ?s4"
  let ?s2 = "blanks @ ?s3"
  let ?s1 = "colon @ ?s2"
  have s: "w @ rest = lab @ ?s1" using w by simp
  have m1: "match_literal label (w @ rest) = Some ?s1"
    unfolding s match_literal_Some using lab by blast
  from ds obtain d dt where dcons: "ds = d # dt" "is_digit d" by (cases ds) auto
  have hd3: "?s3 \<noteq> [] \<and> \<not> is_space (hd ?s3) \<and> hd ?s3 \<noteq> CHR '':''"
    using plus dcons by (auto simp: char_facts)
  have hd2: "?s2 \<noteq> [] \<and> hd ?s2 \<noteq> CHR '':''"
    using hd3 blanks by (cases blanks) (auto simp: char_facts)
  have o1: "optional_char CHR '':'' ?s1 = ?s2"
    using colon hd2 by (auto simp: optional_char_skip optional_char_keep)
  have "dropWhile is_space ?s2 = dropWhile is_space ?s3"
    using blanks by (simp add: list_all_iff)
  also have "\<dots> = ?s3" using hd3 by (simp add: dropWhile_eq_self_iff)
  finally have d1: "dropWhile is_space ?s2 = ?s3" .
  have o2: "optional_char CHR ''+'' ?s3 = ?s4"
    using plus dcons by (auto simp: optional_char_skip optional_char_keep char_facts)
  have t1: "takeWhile is_digit ?s4 = ds"
    using ds(2) by (simp add: takeWhile_tail char_facts list_all_iff)
  have d2: "dropWhile is_digit ?s4 = ?s5"
    using ds(2) by (simp add: list_all_iff char_facts)
  have len: "length (w @ rest) - length ?s5 + 1 = length w" using w by simp
  show ?thesis
    unfolding match_at_def m1 using o1 d1 o2 t1 d2 ds(1) len
    by (simp add: Let_def)
qed

lemma match_at_iff:
  "match_at label s = Some (ds, n) \<longleftrightarrow>
     (\<exists>w rest. s = w @ rest \<and> pattern_match label w ds \<and> n = length w)"
  using match_at_sound match_at_complete by blast

text \<open>
  Two occurrences never overlap: past its first letter, an occurrence holds no character
  that could start the label again. So the scan, which resumes after each match, misses
  none.
\<close>

lemma no_double_underscore: "CHR ''_'' \<notin> set s \<Longrightarrow> \<not> double_underscore s"
  by (induction s rule: double_underscore.induct) auto

lemma py_int_digits:
  assumes "ds \<noteq> []" "list_all is_digit ds"
  shows "py_int ds = Inr (int (digits_value ds))"
proof -
  from assms obtain d dt where dcons: "ds = d # dt" "is_digit d" by (cases ds) auto
  have all: "\<forall>c\<in>set ds. is_digit c" using assms(2) by (simp add: list_all_iff)
  have s1: "dropWhile is_space ds = ds"
    using dcons by (simp add: char_facts)
  have sign: "d \<noteq> CHR ''-''" "d \<noteq> CHR ''+''" using dcons(2) by (auto simp: char_facts)
  have body: "takeWhile (\<lambda>c. is_digit c \<or> c = CHR ''_'') ds = ds"
    using all by simp
  have trailing: "dropWhile (\<lambda>c. is_digit c \<or> c = CHR ''_'') ds = []"
    using all by simp
  have under: "CHR ''_'' \<notin> set ds" using all char_facts(9) by blast
  then have ends: "hd ds \<noteq> CHR ''_''" "last ds \<noteq> CHR ''_''"
    using assms(1) by (metis hd_in_set, metis last_in_set)
  have filt: "filter is_digit ds = ds" using all by simp
  show ?thesis
    unfolding py_int_def s1
    using sign body trailing ends no_double_underscore[OF under] filt assms(1) dcons(1)
    by (simp add: Let_def)
qed

lemma match_at_digits:
  "match_at label s = Some (ds, n) \<Longrightarrow> ds \<noteq> [] \<and> list_all is_digit ds \<and> 0 < n \<and> n \<le> length s"
  by (drule match_at_sound) (auto simp: pattern_match_def)

lemma add_match_value:
  "match_at label s = Some (ds, n) \<Longrightarrow> add_match acc ds = acc + match_value label s"
  by (frule match_at_digits) (simp add: add_match_def py_int_digits match_value_def)

lemma match_at_first_char:
  "lower_char c \<noteq> lower_char l0 \<Longrightarrow> match_at (l0 # ltail) (c # t) = None"
  by (simp add: match_at_def)

lemma match_at_Nil: "match_at label [] = None"
proof (cases "match_at label []")
  case (Some a)
  then obtain ds n where "match_at label [] = Some (ds, n)" by (cases a) auto
  from match_at_digits[OF this] have False by auto
  then show ?thesis ..
qed simp

lemma no_overlap:
  assumes first: "lower_char l0 \<notin> lower_char ` set ltail"
    and others: "\<And>c. c = CHR '':'' \<or> is_space c \<or> c = CHR ''+'' \<or> is_digit c \<or> c = CHR ''%''
                  \<Longrightarrow> lower_char c \<noteq> lower_char l0"
    and m: "match_at (l0 # ltail) s = Some (ds, n)" and j: "0 < j" "j < n"
  shows "match_at (l0 # ltail) (drop j s) = None"
proof -
  from match_at_sound[OF m] obtain w rest lab colon blanks plus where
    s: "s = w @ rest" and n: "n = length w"
    and w: "w = lab @ colon @ blanks @ plus @ ds @ ''%''"
    and lab: "map lower_char lab = map lower_char (l0 # ltail)"
    and colon: "colon = [] \<or> colon = '':''"
    and blanks: "list_all is_space blanks"
    and plus: "plus = [] \<or> plus = ''+''"
    and ds: "list_all is_digit ds"
    unfolding pattern_match_def py_lower_def by blast
  from lab obtain x xs where xs: "lab = x # xs" "map lower_char xs = map lower_char ltail"
    by (cases lab) auto
  let ?tail = "xs @ colon @ blanks @ plus @ ds @ ''%''"
  have wx: "w = x # ?tail" using w xs by simp
  from j n have jl: "j - 1 < length ?tail" unfolding wx by simp
  have "w ! j = ?tail ! (j - 1)" using j unfolding wx by (cases j) simp_all
  then have mem: "w ! j \<in> set ?tail" using jl by (metis nth_mem)
  have diff: "lower_char (w ! j) \<noteq> lower_char l0"
  proof (cases "w ! j \<in> set xs")
    case True
    then have "lower_char (w ! j) \<in> set (map lower_char xs)" by simp
    with xs(2) have "lower_char (w ! j) \<in> lower_char ` set ltail" by simp
    with first show ?thesis by metis
  next
    case False
    with mem colon plus blanks ds
    have "w ! j = CHR '':'' \<or> is_space (w ! j) \<or> w ! j = CHR ''+'' \<or> is_digit (w ! j)
        \<or> w ! j = CHR ''%''"
      by (auto simp: list_all_iff)
    then show ?thesis by (rule others)
  qed
  have "j < length s" using j n s by simp
  then have "drop j s = s ! j # drop (Suc j) s" by (simp add: Cons_nth_drop_Suc)
  moreover have "s ! j = w ! j" using j n s by (simp add: nth_append)
  ultimately show ?thesis using diff by (simp add: match_at_first_char)
qed

lemma match_value_None: "match_at label s = None \<Longrightarrow> match_value label s = 0"
  by (simp add: match_value_def)

lemma sum_positions_Cons:
  "(\<Sum>i<Suc (length cs). match_value label (drop i (c # cs)))
     = match_value label (c # cs) + (\<Sum>i<length cs. match_value label (drop i cs))"
  by (simp add: sum.lessThan_Suc_shift del: sum.lessThan_Suc)

lemma finditer_sum:
  assumes first: "lower_char l0 \<notin> lower_char ` set ltail"
    and others: "\<And>c. c = CHR '':'' \<or> is_space c \<or> c = CHR ''+'' \<or> is_digit c \<or> c = CHR ''%''
                  \<Longrightarrow> lower_char c \<noteq> lower_char l0"
  shows "(\<forall>j<k. match_at (l0 # ltail) (drop j s) = None) \<Longrightarrow>
     foldl add_match acc (finditer (l0 # ltail) k s)
       = acc + (\<Sum>i<length s. match_value (l0 # ltail) (drop i s))"
proof (induction s arbitrary: k acc)
  case Nil
  then show ?case by simp
next
  case (Cons c cs)
  let ?label = "l0 # ltail"
  show ?case
  proof (cases k)
    case (Suc k')
    with Cons.prems have here: "match_at ?label (c # cs) = None"
      and later: "\<forall>j<k'. match_at ?label (drop j cs) = None"
      by (force, force)
    from Cons.IH[OF later, of acc] match_value_None[OF here] Suc show ?thesis
      by (simp add: sum_positions_Cons del: sum.lessThan_Suc)
  next
    case 0
    show ?thesis
    proof (cases "match_at ?label (c # cs)")
      case None
      have "\<forall>j<0. match_at ?label (drop j cs) = None" by simp
      from Cons.IH[OF this, of acc] match_value_None[OF None] None 0 show ?thesis
        by (simp add: sum_positions_Cons del: sum.lessThan_Suc)
    next
      case (Some a)
      then obtain ds n where m: "match_at ?label (c # cs) = Some (ds, n)" by (cases a) auto
      have later: "\<forall>j<n - 1. match_at ?label (drop j cs) = None"
      proof (intro allI impI)
        fix j assume "j < n - 1"
        then have "0 < Suc j" "Suc j < n" by simp_all
        from no_overlap[OF first others m this] show "match_at ?label (drop j cs) = None"
          by simp
      qed
      from Cons.IH[OF later, of "add_match acc ds"] m 0 add_match_value[OF m, of acc]
      show ?thesis
        by (simp add: sum_positions_Cons del: sum.lessThan_Suc)
    qed
  qed
qed

lemma occurrence_at_match:
  "occurrence_at label s i ds \<longleftrightarrow> (\<exists>n. match_at label (drop i s) = Some (ds, n))"
  unfolding occurrence_at_def match_at_iff by blast

lemma sum_occurrences:
  "(\<Sum>(i, ds)\<in>{(i, ds). occurrence_at label s i ds}. int (digits_value ds))
     = (\<Sum>i<length s. match_value label (drop i s))"
proof -
  let ?A = "{i. i < length s \<and> match_at label (drop i s) \<noteq> None}"
  let ?f = "\<lambda>i. (i, fst (the (match_at label (drop i s))))"
  have set_eq: "{(i, ds). occurrence_at label s i ds} = ?f ` ?A"
  proof (intro set_eqI iffI)
    fix p assume "p \<in> {(i, ds). occurrence_at label s i ds}"
    then obtain i ds n where p: "p = (i, ds)" and m: "match_at label (drop i s) = Some (ds, n)"
      by (auto simp: occurrence_at_match)
    have "i < length s"
    proof (rule ccontr)
      assume "\<not> i < length s"
      then have "drop i s = []" by simp
      with m show False by (simp add: match_at_Nil)
    qed
    with p m show "p \<in> ?f ` ?A" by force
  next
    fix p assume "p \<in> ?f ` ?A"
    then obtain i where i: "i \<in> ?A" "p = ?f i" by blast
    then obtain ds n where "match_at label (drop i s) = Some (ds, n)" by auto
    with i show "p \<in> {(i, ds). occurrence_at label s i ds}"
      by (auto simp: occurrence_at_match)
  qed
  have inj: "inj_on ?f ?A" by (rule inj_onI) simp
  have "(\<Sum>(i, ds)\<in>?f ` ?A. int (digits_value ds))
      = sum ((\<lambda>(i, ds). int (digits_value ds)) \<circ> ?f) ?A"
    by (rule sum.reindex[OF inj])
  also have "\<dots> = (\<Sum>i\<in>?A. int (digits_value (fst (the (match_at label (drop i s))))))"
    by (simp add: o_def)
  also have "\<dots> = (\<Sum>i\<in>?A. match_value label (drop i s))"
    by (rule sum.cong) (auto simp: match_value_def)
  also have "\<dots> = (\<Sum>i<length s. match_value label (drop i s))"
    by (rule sum.mono_neutral_left) (auto simp: match_value_def split: option.splits)
  finally show ?thesis unfolding set_eq .
qed

lemma not_in_image: "list_all (\<lambda>c. f c \<noteq> a) xs \<Longrightarrow> a \<notin> f ` set xs"
  by (auto simp: list_all_iff)

lemma label_first_letters:
  "lower_char CHR ''I'' \<notin> lower_char ` set ''tem Drop Rate''"
  "lower_char CHR ''M'' \<notin> lower_char ` set ''esos Obtained''"
proof -
  have "list_all (\<lambda>c. lower_char c \<noteq> lower_char CHR ''I'') ''tem Drop Rate''" by code_simp
  then show "lower_char CHR ''I'' \<notin> lower_char ` set ''tem Drop Rate''"
    by (rule not_in_image)
  have "list_all (\<lambda>c. lower_char c \<noteq> lower_char CHR ''M'') ''esos Obtained''" by code_simp
  then show "lower_char CHR ''M'' \<notin> lower_char ` set ''esos Obtained''"
    by (rule not_in_image)
qed

lemma tail_chars_no_letter:
  assumes "c = CHR '':'' \<or> is_space c \<or> c = CHR ''+'' \<or> is_digit c \<or> c = CHR ''%''"
  shows "lower_char c \<noteq> lower_char CHR ''I''" and "lower_char c \<noteq> lower_char CHR ''M''"
proof -
  let ?tail = "'':+%0123456789'' @ [CHR 0x09, CHR 0x0A, CHR 0x0B, CHR 0x0C, CHR 0x0D,
               CHR 0x1C, CHR 0x1D, CHR 0x1E, CHR 0x1F, CHR 0x20, CHR 0x85, CHR 0xA0]"
  have "list_all (\<lambda>c. lower_char c \<noteq> lower_char CHR ''I'' \<and> lower_char c \<noteq> lower_char CHR ''M'')
      ?tail"
    by code_simp
  moreover have "c \<in> set ?tail" using assms unfolding is_space_def is_digit_def by auto
  ultimately show "lower_char c \<noteq> lower_char CHR ''I''" "lower_char c \<noteq> lower_char CHR ''M''"
    unfolding list_all_iff by blast+
qed

lemma extract_item_drop_rate_sum:
  "extract_item_drop_rate s = (\<Sum>i<length s. match_value ''Item Drop Rate'' (drop i s))"
  unfolding extract_item_drop_rate_def
  using finditer_sum[OF label_first_letters(1) tail_chars_no_letter(1), of 0 s 0]
  by simp

lemma extract_mesos_obtained_sum:
  "extract_mesos_obtained s = (\<Sum>i<length s. match_value ''Mesos Obtained'' (drop i s))"
  unfolding extract_mesos_obtained_def
  using finditer_sum[OF label_first_letters(2) tail_chars_no_letter(2), of 0 s 0]
  by simp

text \<open>
  C5. For every text, each keyword total is the sum, over all the occurrences of the
  category's pattern (label in any case, optional colon, blanks, optional plus, integer,
  percent sign), of the integer value of the digits; occurrences never overlap, so these
  are all the non-overlapping ones. The function is total, and with no occurrence the
  total is 0, whatever else the text holds.
\<close>

theorem keyword_totals:
  "extract_item_drop_rate s
     = (\<Sum>(i, ds)\<in>{(i, ds). occurrence_at ''Item Drop Rate'' s i ds}. int (digits_value ds))
   \<and> extract_mesos_obtained s
     = (\<Sum>(i, ds)\<in>{(i, ds). occurrence_at ''Mesos Obtained'' s i ds}. int (digits_value ds))
   \<and> ((\<forall>i ds. \<not> occurrence_at ''Item Drop Rate'' s i ds) \<longrightarrow> extract_item_drop_rate s = 0)
   \<and> ((\<forall>i ds. \<not> occurrence_at ''Mesos Obtained'' s i ds) \<longrightarrow> extract_mesos_obtained s = 0)"
proof -
  have item: "extract_item_drop_rate s
     = (\<Sum>(i, ds)\<in>{(i, ds). occurrence_at ''Item Drop Rate'' s i ds}. int (digits_value ds))"
    by (simp only: extract_item_drop_rate_sum sum_occurrences)
  have mesos: "extract_mesos_obtained s
     = (\<Sum>(i, ds)\<in>{(i, ds). occurrence_at ''Mesos Obtained'' s i ds}. int (digits_value ds))"
    by (simp only: extract_mesos_obtained_sum sum_occurrences)
  have no_item: "extract_item_drop_rate s = 0"
    if "\<forall>i ds. \<not> occurrence_at ''Item Drop Rate'' s i ds"
  proof -
    from that have e: "{(i, ds). occurrence_at ''Item Drop Rate'' s i ds} = {}" by auto
    show ?thesis by (simp only: item e sum.empty)
  qed
  have no_mesos: "extract_mesos_obtained s = 0"
    if "\<forall>i ds. \<not> occurrence_at ''Mesos Obtained'' s i ds"
  proof -
    from that have e: "{(i, ds). occurrence_at ''Mesos Obtained'' s i ds} = {}" by auto
    show ?thesis by (simp only: mesos e sum.empty)
  qed
  show ?thesis
  proof (intro conjI impI)
    show "extract_item_drop_rate s
       = (\<Sum>(i, ds)\<in>{(i, ds). occurrence_at ''Item Drop Rate'' s i ds}. int (digits_value ds))"
      by (rule item)
    show "extract_mesos_obtained s
       = (\<Sum>(i, ds)\<in>{(i, ds). occurrence_at ''Mesos Obtained'' s i ds}. int (digits_value ds))"
      by (rule mesos)
    show "extract_item_drop_rate s = 0"
      if "\<forall>i ds. \<not> occurrence_at ''Item Drop Rate'' s i ds"
      using that by (rule no_item)
    show "extract_mesos_obtained s = 0"
      if "\<forall>i ds. \<not> occurrence_at ''Mesos Obtained'' s i ds"
      using that by (rule no_mesos)
  qed
qed

text \<open>
  The theorem at concrete texts: two occurrences among unrelated words add up to 19, and a
  text with no occurrence gives 0 for both categories.
\<close>

theorem keyword_totals_witness:
  "(\<Sum>(i, ds)\<in>{(i, ds). occurrence_at ''Item Drop Rate''
        ''Item Drop Rate: +12%, mesos, item drop rate 7%'' i ds}. int (digits_value ds)) = 19
   \<and> extract_item_drop_rate '''' = 0
   \<and> extract_mesos_obtained '''' = 0"
proof -
  have "extract_item_drop_rate ''Item Drop Rate: +12%, mesos, item drop rate 7%'' = 19"
    by code_simp
  then have sum: "(\<Sum>(i, ds)\<in>{(i, ds). occurrence_at ''Item Drop Rate''
        ''Item Drop Rate: +12%, mesos, item drop rate 7%'' i ds}. int (digits_value ds)) = 19"
    by (simp only: keyword_totals [where s = "''Item Drop Rate: +12%, mesos, item drop rate 7%''",
      THEN conjunct1])
  have none: "\<forall>i ds. \<not> occurrence_at ''Mesos Obtained'' '''' i ds"
    by (simp add: occurrence_at_match match_at_Nil)
  have none': "\<forall>i ds. \<not> occurrence_at ''Item Drop Rate'' '''' i ds"
    by (simp add: occurrence_at_match match_at_Nil)
  note no_mesos = keyword_totals [where s = "''''", THEN conjunct2, THEN conjunct2,
      THEN conjunct2, THEN mp, OF none]
  note no_item = keyword_totals [where s = "''''", THEN conjunct2, THEN conjunct2,
      THEN conjunct1, THEN mp, OF none']
  show ?thesis using sum no_item no_mesos by (intro conjI) assumption+
qed

end
